theory Spec2Isabelle
  imports Main "HOL-Library.AList"
begin

section \<open>Shirk: the plug kernel of an IRC bot (src/shirk.py)\<close>

text \<open>
  The class \<open>Shirk\<close> keeps the loaded plugs in the dictionary \<open>self.plugs\<close> and their
  subscriptions in \<open>self.hooks\<close>. Its methods load and remove plugs, register hooks and
  hand every inbound event to the subscribed plugs. The methods are embedded as
  functions on an explicit kernel state; a Python exception is the value \<open>Some e\<close> of
  the outcome, a normal return is \<open>None\<close>.
\<close>

subsection \<open>Exceptions, events, plug instances\<close>

text \<open>
  The exceptions the kernel's own statements raise, \<open>PlugFault\<close> for any other exception
  raised by the code of a plug, and \<open>Unspecified\<close> for the one situation in which the
  result of the Python program depends on the layout of a hash table (see \<open>iter_live\<close>).
\<close>

datatype exn =
    ImportError | KeyError | IndexError | AttributeError | RuntimeError
  | PlugFault string | Unspecified

text \<open>
  Modelled from the spec: \<open>util.Event\<close> is not among the sources. shirk.py uses eight of
  its constants: the six of \<open>_simple_events\<close>, \<open>Event.raw\<close> and \<open>Event.command\<close>.
  \<open>Unknown\<close> stands for any other value handed to \<open>add_callback\<close>.
\<close>

datatype simple_event =
  Addressed | Chanmsg | Private | Userjoined | Usercreated | Userremoved

datatype event = Simple simple_event | Raw | Command | Unknown string

text \<open>
  A plug class declares the attributes \<open>hooks\<close>, \<open>commands\<close> and \<open>rawhooks\<close>
  (src/plugs/*/*.py). An instance carries them together with its object identity:
  \<open>pid\<close> is drawn from a counter of the kernel, so that two instantiations never yield
  equal objects.
\<close>

record plugclass =
  hooks :: "event list"
  commands :: "string list"
  rawhooks :: "string list"

record plug = plugclass +
  pid :: nat

definition instantiate :: "plugclass \<Rightarrow> nat \<Rightarrow> plug" where
  "instantiate cls i =
     \<lparr>hooks = hooks cls, commands = commands cls, rawhooks = rawhooks cls, pid = i\<rparr>"

subsection \<open>Python sets and the kernel state\<close>

text \<open>
  A Python set is the duplicate-free list of its members, in the order in which its
  iterator yields them. \<open>add\<close> leaves the set alone when the member is present,
  \<open>discard\<close> deletes it when it is.
\<close>

definition set_add :: "'a \<Rightarrow> 'a list \<Rightarrow> 'a list" where
  "set_add x s = (if x \<in> set s then s else s @ [x])"

definition set_discard :: "'a \<Rightarrow> 'a list \<Rightarrow> 'a list" where
  "set_discard x s = removeAll x s"

text \<open>
  The state after \<open>signedOn\<close> has run \<open>load_plugs\<close>. \<open>self.plugs\<close> is an association
  list, since \<open>shutdown\<close> and \<open>connectionLost\<close> iterate over it. \<open>self.hooks\<close> has
  exactly the eight keys \<open>load_plugs\<close> creates: \<open>hooks_raw\<close> and \<open>hooks_command\<close> are
  the two dictionaries \<open>self.hooks[Event.raw]\<close> and \<open>self.hooks[Event.command]\<close>,
  \<open>hooks_simple ev\<close> is the set \<open>self.hooks[ev]\<close> of a simple event.
  \<open>cleaned\<close> records every call of a plug's \<open>cleanup\<close>, in order; \<open>quit_sent\<close> the
  messages handed to \<open>self.quit\<close>.
\<close>

record kernel =
  plugs :: "(string \<times> plug) list"
  hooks_raw :: "string \<rightharpoonup> plug list"
  hooks_command :: "string \<rightharpoonup> plug list"
  hooks_simple :: "simple_event \<Rightarrow> plug list"
  next_id :: nat
  cleaned :: "plug list"
  shuttingdown :: bool
  quit_sent :: "string list"

text \<open>Lines 45 to 49 of \<open>load_plugs\<close>: no plug, empty tables.\<close>

definition empty_kernel :: kernel where
  "empty_kernel =
     \<lparr>plugs = [], hooks_raw = Map.empty, hooks_command = Map.empty,
      hooks_simple = (\<lambda>ev. []), next_id = 0, cleaned = [],
      shuttingdown = False, quit_sent = []\<rparr>"

subsection \<open>Registration: \<open>add_command\<close>, \<open>add_callback\<close>, \<open>add_raw\<close>\<close>

definition entry :: "(string \<rightharpoonup> plug list) \<Rightarrow> string \<Rightarrow> plug list" where
  "entry t c = (case t c of None \<Rightarrow> [] | Some s \<Rightarrow> s)"

text \<open>\<open>add_command\<close> creates the entry when the command is new, then adds the plug.\<close>

definition add_command :: "string \<Rightarrow> plug \<Rightarrow> kernel \<Rightarrow> kernel" where
  "add_command cmd p k =
     k\<lparr>hooks_command := (hooks_command k)(cmd \<mapsto> set_add p (entry (hooks_command k) cmd))\<rparr>"

definition add_raw :: "string \<Rightarrow> plug \<Rightarrow> kernel \<Rightarrow> kernel" where
  "add_raw cmd p k =
     k\<lparr>hooks_raw := (hooks_raw k)(cmd \<mapsto> set_add p (entry (hooks_raw k) cmd))\<rparr>"

text \<open>
  \<open>add_callback\<close> returns False for an event that is no key of \<open>self.hooks\<close>. For
  \<open>Event.raw\<close> and \<open>Event.command\<close> the key exists and its value is a dictionary,
  which has no method \<open>add\<close>: the call raises AttributeError.
\<close>

definition add_callback :: "event \<Rightarrow> plug \<Rightarrow> kernel \<Rightarrow> (exn + bool) \<times> kernel" where
  "add_callback ev p k =
     (case ev of
        Unknown _ \<Rightarrow> (Inr False, k)
      | Raw \<Rightarrow> (Inl AttributeError, k)
      | Command \<Rightarrow> (Inl AttributeError, k)
      | Simple e \<Rightarrow>
          (Inr True, k\<lparr>hooks_simple := (hooks_simple k)(e := set_add p (hooks_simple k e))\<rparr>))"

subsection \<open>Loading and removing plugs\<close>

fun add_callbacks :: "event list \<Rightarrow> plug \<Rightarrow> kernel \<Rightarrow> exn option \<times> kernel" where
  "add_callbacks [] p k = (None, k)"
| "add_callbacks (ev # evs) p k =
     (case add_callback ev p k of
        (Inl e, k') \<Rightarrow> (Some e, k')
      | (Inr _, k') \<Rightarrow> add_callbacks evs p k')"

text \<open>
  Modelled from the spec: \<open>plugbase.Plug.hook_events\<close> is not among the sources. It is the
  hook-registration step of a plug, which calls into the registry for each declared
  interest: \<open>add_callback\<close> for every entry of \<open>hooks\<close>, \<open>add_command\<close> for every entry of
  \<open>commands\<close>, \<open>add_raw\<close> for every entry of \<open>rawhooks\<close>.
\<close>

definition hook_events :: "plug \<Rightarrow> kernel \<Rightarrow> exn option \<times> kernel" where
  "hook_events p k =
     (case add_callbacks (hooks p) p k of
        (Some e, k') \<Rightarrow> (Some e, k')
      | (None, k') \<Rightarrow>
          (None, fold (\<lambda>c. add_raw c p) (rawhooks p)
                   (fold (\<lambda>c. add_command c p) (commands p) k')))"

text \<open>
  \<open>load_plug\<close>. The parameter \<open>ld\<close> is the outcome of lines 64 to 66 for a name: importing
  and reloading the module and running the constructor either raise (ImportError when
  there is no such module) or yield the attributes of the new instance. Nothing is
  written before line 67.
\<close>

definition load_plug :: "(string \<Rightarrow> exn + plugclass) \<Rightarrow> string \<Rightarrow> kernel \<Rightarrow> exn option \<times> kernel" where
  "load_plug ld plugname k =
     (case ld plugname of
        Inl e \<Rightarrow> (Some e, k)
      | Inr cls \<Rightarrow>
          (let p = instantiate cls (next_id k)
           in hook_events p
                (k\<lparr>plugs := AList.update plugname p (plugs k), next_id := Suc (next_id k)\<rparr>)))"

text \<open>
  \<open>remove_plug\<close>. The parameter \<open>cl\<close> is the outcome of a plug's \<open>cleanup\<close> method
  (\<open>plugbase\<close> and the plug modules): it returns or raises.
\<close>

definition discard_all :: "plug \<Rightarrow> (string \<rightharpoonup> plug list) \<Rightarrow> (string \<rightharpoonup> plug list)" where
  "discard_all p t = (\<lambda>c. map_option (set_discard p) (t c))"

definition remove_plug :: "(plug \<Rightarrow> exn option) \<Rightarrow> string \<Rightarrow> kernel \<Rightarrow> exn option \<times> kernel" where
  "remove_plug cl plugname k =
     (case map_of (plugs k) plugname of
        None \<Rightarrow> (Some KeyError, k)
      | Some p \<Rightarrow>
          (let k1 = k\<lparr>cleaned := cleaned k @ [p]\<rparr>
           in case cl p of
                Some e \<Rightarrow> (Some e, k1)
              | None \<Rightarrow>
                  (None, k1\<lparr>hooks_command := discard_all p (hooks_command k1),
                             hooks_raw := discard_all p (hooks_raw k1),
                             hooks_simple := (\<lambda>ev. set_discard p (hooks_simple k1 ev)),
                             plugs := AList.delete plugname (plugs k1)\<rparr>)))"

subsection \<open>Shutting down\<close>

text \<open>
  The loop \<open>for name, plug in self.plugs.iteritems(): plug.cleanup()\<close> of \<open>shutdown\<close>
  and \<open>connectionLost\<close>: it stops at the first cleanup that raises. \<open>shutdown\<close> then
  sets \<open>factory.shuttingdown\<close> and calls \<open>self.quit\<close>.
\<close>

fun cleanup_each :: "(plug \<Rightarrow> exn option) \<Rightarrow> plug list \<Rightarrow> kernel \<Rightarrow> exn option \<times> kernel" where
  "cleanup_each cl [] k = (None, k)"
| "cleanup_each cl (p # ps) k =
     (let k1 = k\<lparr>cleaned := cleaned k @ [p]\<rparr>
      in case cl p of
           Some e \<Rightarrow> (Some e, k1)
         | None \<Rightarrow> cleanup_each cl ps k1)"

definition shutdown :: "(plug \<Rightarrow> exn option) \<Rightarrow> string \<Rightarrow> kernel \<Rightarrow> exn option \<times> kernel" where
  "shutdown cl msg k =
     (case cleanup_each cl (map snd (plugs k)) k of
        (Some e, k') \<Rightarrow> (Some e, k')
      | (None, k') \<Rightarrow> (None, k'\<lparr>shuttingdown := True, quit_sent := quit_sent k' @ [msg]\<rparr>))"

text \<open>
  \<open>connectionLost\<close> runs the same loop inside \<open>try\<close>, followed by \<open>del self.users\<close>
  (the user directory is not part of the state here); its handler swallows an
  AttributeError and nothing else.
\<close>

definition connectionLost :: "(plug \<Rightarrow> exn option) \<Rightarrow> kernel \<Rightarrow> exn option \<times> kernel" where
  "connectionLost cl k =
     (case cleanup_each cl (map snd (plugs k)) k of
        (Some e, k') \<Rightarrow> (if e = AttributeError then (None, k') else (Some e, k'))
      | (None, k') \<Rightarrow> (None, k'))"

subsection \<open>Dispatch\<close>

text \<open>
  A handler of a plug is any function on the kernel state that returns or raises: it may
  call \<open>load_plug\<close> and \<open>remove_plug\<close>. Every dispatcher returns, besides the outcome
  and the state, the plugs whose handler it has called, in order.

  \<open>call_each\<close> is the loop over a copy of a set (\<open>to_call\<close>): what the handlers do
  to the tables does not touch the list being walked.
\<close>

fun call_each :: "(plug \<Rightarrow> kernel \<Rightarrow> exn option \<times> kernel) \<Rightarrow> plug list \<Rightarrow> kernel
    \<Rightarrow> exn option \<times> plug list \<times> kernel" where
  "call_each f [] k = (None, [], k)"
| "call_each f (p # ps) k =
     (case f p k of
        (Some e, k') \<Rightarrow> (Some e, [p], k')
      | (None, k') \<Rightarrow>
          (case call_each f ps k' of (r, tr, k'') \<Rightarrow> (r, p # tr, k'')))"

text \<open>
  \<open>iter_live\<close> is the loop over the set itself. \<open>live\<close> reads the set from the state,
  \<open>s0\<close> is the set as it was when the iterator was created. At every step the iterator
  of CPython compares the size of the set with the size at its creation and raises
  RuntimeError (Set changed size during iteration) when they differ, also at the step
  that would end the loop. When the set has kept its size and changed its members, what
  the iterator yields depends on the hash table; the model stops with \<open>Unspecified\<close>.
\<close>

definition stale :: "plug list \<Rightarrow> plug list \<Rightarrow> exn" where
  "stale s s0 = (if length s \<noteq> length s0 then RuntimeError else Unspecified)"

fun iter_live :: "(kernel \<Rightarrow> plug list) \<Rightarrow> (plug \<Rightarrow> kernel \<Rightarrow> exn option \<times> kernel)
    \<Rightarrow> plug list \<Rightarrow> plug list \<Rightarrow> kernel \<Rightarrow> exn option \<times> plug list \<times> kernel" where
  "iter_live live f s0 [] k =
     (if live k = s0 then (None, [], k) else (Some (stale (live k) s0), [], k))"
| "iter_live live f s0 (p # ps) k =
     (if live k = s0 then
        (case f p k of
           (Some e, k') \<Rightarrow> (Some e, [p], k')
         | (None, k') \<Rightarrow>
             (case iter_live live f s0 ps k' of (r, tr, k'') \<Rightarrow> (r, p # tr, k'')))
      else (Some (stale (live k) s0), [], k))"

definition event_simple :: "simple_event \<Rightarrow> (plug \<Rightarrow> kernel \<Rightarrow> exn option \<times> kernel) \<Rightarrow> kernel
    \<Rightarrow> exn option \<times> plug list \<times> kernel" where
  "event_simple ev f k =
     iter_live (\<lambda>k. hooks_simple k ev) f (hooks_simple k ev) (hooks_simple k ev) k"

text \<open>The methods of a plug that the dispatchers call, with their arguments.\<close>

record handlers =
  handle_addressed :: "plug \<Rightarrow> string \<Rightarrow> string \<Rightarrow> string \<Rightarrow> kernel \<Rightarrow> exn option \<times> kernel"
  handle_chanmsg :: "plug \<Rightarrow> string \<Rightarrow> string \<Rightarrow> string \<Rightarrow> bool \<Rightarrow> kernel \<Rightarrow> exn option \<times> kernel"
  handle_command :: "plug \<Rightarrow> string \<Rightarrow> string \<Rightarrow> string list \<Rightarrow> kernel \<Rightarrow> exn option \<times> kernel"
  handle_private :: "plug \<Rightarrow> string \<Rightarrow> string \<Rightarrow> bool \<Rightarrow> kernel \<Rightarrow> exn option \<times> kernel"
  handle_raw :: "plug \<Rightarrow> string \<Rightarrow> string \<Rightarrow> string list \<Rightarrow> kernel \<Rightarrow> exn option \<times> kernel"

definition event_addressed :: "handlers \<Rightarrow> string \<Rightarrow> string \<Rightarrow> string \<Rightarrow> kernel
    \<Rightarrow> exn option \<times> plug list \<times> kernel" where
  "event_addressed h source target msg k =
     event_simple Addressed (\<lambda>p. handle_addressed h p source target msg) k"

definition event_chanmsg :: "handlers \<Rightarrow> string \<Rightarrow> string \<Rightarrow> string \<Rightarrow> bool \<Rightarrow> kernel
    \<Rightarrow> exn option \<times> plug list \<times> kernel" where
  "event_chanmsg h source channel msg action k =
     event_simple Chanmsg (\<lambda>p. handle_chanmsg h p source channel msg action) k"

definition event_private :: "handlers \<Rightarrow> string \<Rightarrow> string \<Rightarrow> bool \<Rightarrow> kernel
    \<Rightarrow> exn option \<times> plug list \<times> kernel" where
  "event_private h source msg action k =
     event_simple Private (\<lambda>p. handle_private h p source msg action) k"

text \<open>
  \<open>event_command\<close> reads \<open>argv[0]\<close>, which raises IndexError on the empty list, and
  walks a copy of the set registered for it. \<open>event_raw\<close> does the same for a raw code.
\<close>

definition event_command :: "handlers \<Rightarrow> string \<Rightarrow> string \<Rightarrow> string list \<Rightarrow> kernel
    \<Rightarrow> exn option \<times> plug list \<times> kernel" where
  "event_command h source target argv k =
     (case argv of
        [] \<Rightarrow> (Some IndexError, [], k)
      | c # _ \<Rightarrow>
          (case hooks_command k c of
             None \<Rightarrow> (None, [], k)
           | Some to_call \<Rightarrow> call_each (\<lambda>p. handle_command h p source target argv) to_call k))"

definition event_raw :: "handlers \<Rightarrow> string \<Rightarrow> string \<Rightarrow> string list \<Rightarrow> kernel
    \<Rightarrow> exn option \<times> plug list \<times> kernel" where
  "event_raw h command prefix params k =
     (case hooks_raw k command of
        None \<Rightarrow> (None, [], k)
      | Some to_call \<Rightarrow> call_each (\<lambda>p. handle_raw h p command prefix params) to_call k)"

subsection \<open>\<open>privmsg\<close>: from a message to events\<close>

text \<open>The string methods \<open>privmsg\<close> uses: \<open>strip\<close>, \<open>split\<close>, \<open>startswith\<close>.\<close>

definition is_space :: "char \<Rightarrow> bool" where
  "is_space c = (c \<in> set [CHR '' '', CHR 0x09, CHR 0x0A, CHR 0x0B, CHR 0x0C, CHR 0x0D])"

definition strip :: "string \<Rightarrow> string" where
  "strip s = rev (dropWhile is_space (rev (dropWhile is_space s)))"

text \<open>\<open>split_acc s w\<close> splits \<open>s\<close> at runs of white space, \<open>w\<close> being the word begun.\<close>

fun split_acc :: "string \<Rightarrow> string \<Rightarrow> string list" where
  "split_acc [] w = (if w = [] then [] else [w])"
| "split_acc (c # cs) w =
     (if is_space c then (if w = [] then split_acc cs [] else w # split_acc cs [])
      else split_acc cs (w @ [c]))"

definition split :: "string \<Rightarrow> string list" where
  "split s = split_acc s []"

definition startswith :: "string \<Rightarrow> string \<Rightarrow> bool" where
  "startswith s p = (take (length p) s = p)"

text \<open>
  \<open>command_argv\<close> is the test of line 195 and the list of line 196: the argument list
  with which \<open>privmsg\<close> calls \<open>event_command\<close>, for a message already stripped.
\<close>

definition command_argv :: "string \<Rightarrow> string \<Rightarrow> string list option" where
  "command_argv cmd_prefix msg =
     (if startswith msg cmd_prefix \<and> length msg > 1
      then Some (split (drop (length cmd_prefix) msg)) else None)"

text \<open>
  \<open>privmsg\<close>: the private or the channel event first, then the command or the
  addressed event. An exception of the first dispatch ends the method. The traces of the
  two dispatches are returned in order.
\<close>

definition privmsg :: "handlers \<Rightarrow> string \<Rightarrow> string \<Rightarrow> string \<Rightarrow> string \<Rightarrow> string \<Rightarrow> kernel
    \<Rightarrow> exn option \<times> (plug list \<times> plug list) \<times> kernel" where
  "privmsg h nickname cmd_prefix user target msg0 k =
     (let user = takeWhile (\<lambda>c. c \<noteq> CHR ''!'') user;
          msg = strip msg0
      in case (if target = nickname then event_private h user msg False k
               else event_chanmsg h user target msg False k) of
           (Some e, tr, k') \<Rightarrow> (Some e, (tr, []), k')
         | (None, tr, k') \<Rightarrow>
             (case command_argv cmd_prefix msg of
                Some argv \<Rightarrow>
                  (case event_command h user target argv k' of
                     (r, tr', k'') \<Rightarrow> (r, (tr, tr'), k''))
              | None \<Rightarrow>
                  if startswith msg nickname
                  then (case event_addressed h user target
                               (strip (drop (length nickname + 1) msg)) k' of
                          (r, tr', k'') \<Rightarrow> (r, (tr, tr'), k''))
                  else (None, (tr, []), k')))"

subsection \<open>Sequences of operations\<close>

text \<open>
  A run of the kernel: the loads, removals, the shutdown and the loss of the connection
  that its callers request, one after the other. An exception ends the operation that
  raised it, not the run: the callers (\<open>cmd_reload\<close> in src/plugs/Core/core.py, the
  event loop) go on.
\<close>

datatype op = Load string | Remove string | Shutdown string | ConnectionLost

fun apply_op :: "(string \<Rightarrow> exn + plugclass) \<Rightarrow> (plug \<Rightarrow> exn option) \<Rightarrow> op \<Rightarrow> kernel \<Rightarrow> kernel" where
  "apply_op ld cl (Load n) k = snd (load_plug ld n k)"
| "apply_op ld cl (Remove n) k = snd (remove_plug cl n k)"
| "apply_op ld cl (Shutdown msg) k = snd (shutdown cl msg k)"
| "apply_op ld cl ConnectionLost k = snd (connectionLost cl k)"

fun run :: "(string \<Rightarrow> exn + plugclass) \<Rightarrow> (plug \<Rightarrow> exn option) \<Rightarrow> op list \<Rightarrow> kernel \<Rightarrow> kernel" where
  "run ld cl [] k = k"
| "run ld cl (x # xs) k = run ld cl xs (apply_op ld cl x k)"

subsection \<open>Plugs and states for the examples\<close>

definition plug_A :: plugclass where
  "plug_A = \<lparr>hooks = [Simple Chanmsg], commands = [''ping''], rawhooks = [''330'']\<rparr>"

definition plug_B :: plugclass where
  "plug_B = \<lparr>hooks = [Simple Chanmsg], commands = [''ping'', ''plugs''], rawhooks = []\<rparr>"

definition two_plugs :: "string \<Rightarrow> exn + plugclass" where
  "two_plugs n =
     (if n = ''A'' then Inr plug_A else if n = ''B'' then Inr plug_B else Inl ImportError)"

definition quiet :: "plug \<Rightarrow> exn option" where
  "quiet p = None"

definition idle :: handlers where
  "idle =
     \<lparr>handle_addressed = (\<lambda>p s t m k. (None, k)),
      handle_chanmsg = (\<lambda>p s c m a k. (None, k)),
      handle_command = (\<lambda>p s t argv k. (None, k)),
      handle_private = (\<lambda>p s m a k. (None, k)),
      handle_raw = (\<lambda>p c pre ps k. (None, k))\<rparr>"

definition kernel_A :: kernel where
  "kernel_A = snd (load_plug two_plugs ''A'' empty_kernel)"

definition kernel_AB :: kernel where
  "kernel_AB = snd (load_plug two_plugs ''B'' kernel_A)"

definition faulty :: "plug \<Rightarrow> exn option" where
  "faulty p = Some (PlugFault ''cleanup'')"

definition crash :: handlers where
  "crash =
     idle\<lparr>handle_chanmsg := (\<lambda>p s c m a k. (Some (PlugFault ''boom''), k)),
          handle_command := (\<lambda>p s t argv k. (Some (PlugFault ''boom''), k)),
          handle_raw := (\<lambda>p c pre ps k. (Some (PlugFault ''boom''), k))\<rparr>"

text \<open>
  A channel message handler that unloads plug A when it runs in the instance loaded as A:
  a plug that removes itself.
\<close>

definition unloader :: handlers where
  "unloader =
     idle\<lparr>handle_chanmsg :=
            (\<lambda>p s c m a k. if map_of (plugs k) ''A'' = Some p then remove_plug quiet ''A'' k
                           else (None, k))\<rparr>"

definition kernel_BA :: kernel where
  "kernel_BA = snd (load_plug two_plugs ''A'' (snd (load_plug two_plugs ''B'' empty_kernel)))"

subsection \<open>Invariants of the tables\<close>

text \<open>
  \<open>fresh_loads\<close> holds of a run in which every \<open>Load\<close> meets a name that is not active
  at that moment.
\<close>

fun fresh_loads :: "(string \<Rightarrow> exn + plugclass) \<Rightarrow> (plug \<Rightarrow> exn option) \<Rightarrow> op list \<Rightarrow> kernel \<Rightarrow> bool" where
  "fresh_loads ld cl [] k = True"
| "fresh_loads ld cl (x # xs) k =
     ((case x of Load n \<Rightarrow> map_of (plugs k) n = None | _ \<Rightarrow> True) \<and>
      fresh_loads ld cl xs (apply_op ld cl x k))"

text \<open>
  \<open>no_dangling\<close>: whatever is in a hook table is a value of \<open>self.plugs\<close>.
  \<open>registered k p\<close>: \<open>p\<close> is in the entry of each of its declared interests.
  \<open>active_ok\<close>: every active plug is registered, and the active plugs are different
  objects. \<open>grows_by p\<close>: a step that at most adds \<open>p\<close> to entries.
  \<open>same_tables\<close>: a step that leaves plugs and tables alone.
\<close>

definition no_dangling :: "kernel \<Rightarrow> bool" where
  "no_dangling k \<longleftrightarrow>
     distinct (map fst (plugs k)) \<and>
     (\<forall>p c. p \<in> set (entry (hooks_command k) c) \<longrightarrow> p \<in> snd ` set (plugs k)) \<and>
     (\<forall>p c. p \<in> set (entry (hooks_raw k) c) \<longrightarrow> p \<in> snd ` set (plugs k)) \<and>
     (\<forall>p ev. p \<in> set (hooks_simple k ev) \<longrightarrow> p \<in> snd ` set (plugs k))"

definition registered :: "kernel \<Rightarrow> plug \<Rightarrow> bool" where
  "registered k p \<longleftrightarrow>
     (\<forall>c \<in> set (commands p). p \<in> set (entry (hooks_command k) c)) \<and>
     (\<forall>c \<in> set (rawhooks p). p \<in> set (entry (hooks_raw k) c)) \<and>
     (\<forall>ev. Simple ev \<in> set (hooks p) \<longrightarrow> p \<in> set (hooks_simple k ev))"

definition active_ok :: "kernel \<Rightarrow> bool" where
  "active_ok k \<longleftrightarrow>
     (\<forall>x \<in> set (plugs k). registered k (snd x) \<and> pid (snd x) < next_id k) \<and>
     distinct (map (\<lambda>x. pid (snd x)) (plugs k))"

definition grows_by :: "plug \<Rightarrow> kernel \<Rightarrow> kernel \<Rightarrow> bool" where
  "grows_by p k k' \<longleftrightarrow>
     plugs k' = plugs k \<and> next_id k' = next_id k \<and>
     (\<forall>c. set (entry (hooks_command k) c) \<subseteq> set (entry (hooks_command k') c) \<and>
          set (entry (hooks_command k') c) \<subseteq> insert p (set (entry (hooks_command k) c))) \<and>
     (\<forall>c. set (entry (hooks_raw k) c) \<subseteq> set (entry (hooks_raw k') c) \<and>
          set (entry (hooks_raw k') c) \<subseteq> insert p (set (entry (hooks_raw k) c))) \<and>
     (\<forall>ev. set (hooks_simple k ev) \<subseteq> set (hooks_simple k' ev) \<and>
          set (hooks_simple k' ev) \<subseteq> insert p (set (hooks_simple k ev)))"

definition same_tables :: "kernel \<Rightarrow> kernel \<Rightarrow> bool" where
  "same_tables k k' \<longleftrightarrow>
     plugs k' = plugs k \<and> next_id k' = next_id k \<and> hooks_command k' = hooks_command k \<and>
     hooks_raw k' = hooks_raw k \<and> hooks_simple k' = hooks_simple k"

section \<open>Properties\<close>

subsection \<open>Evaluating the examples\<close>

lemmas model_defs =
  load_plug_def remove_plug_def hook_events_def instantiate_def add_command_def add_raw_def
  add_callback_def entry_def set_add_def set_discard_def discard_all_def empty_kernel_def
  two_plugs_def plug_A_def plug_B_def quiet_def kernel_A_def kernel_AB_def Let_def

subsection \<open>Removing a plug that is not loaded\<close>




lemma kernel_A_plugs: "plugs kernel_A = [(''A'', instantiate plug_A 0)]"
  by (simp add: model_defs)

lemma kernel_A_ping: "hooks_command kernel_A ''ping'' = Some [instantiate plug_A 0]"
  by (simp add: model_defs)

subsection \<open>A cleanup that raises\<close>

text \<open>
  C7, as the code has it. \<open>remove_plug\<close> calls \<open>cleanup\<close> outside any \<open>try\<close>: when the
  cleanup of an active plug raises, the exception reaches the caller of \<open>remove_plug\<close>
  and the removal stops there. The plug stays in \<open>self.plugs\<close> and in every hook table;
  the state differs from the one before only by the cleanup that has been called.
\<close>

theorem remove_plug_cleanup_raises:
  "map_of (plugs k) plugname = Some p \<Longrightarrow> cl p = Some e \<Longrightarrow>
   remove_plug cl plugname k = (Some e, k\<lparr>cleaned := cleaned k @ [p]\<rparr>)"
  by (simp add: remove_plug_def Let_def)

theorem remove_plug_cleanup_raises_witness:
  "map_of (plugs kernel_A) ''A'' = Some (instantiate plug_A 0) \<and>
   faulty (instantiate plug_A 0) = Some (PlugFault ''cleanup'') \<and>
   remove_plug faulty ''A'' kernel_A
     = (Some (PlugFault ''cleanup''), kernel_A\<lparr>cleaned := cleaned kernel_A @ [instantiate plug_A 0]\<rparr>)"
proof -
  have a: "map_of (plugs kernel_A) ''A'' = Some (instantiate plug_A 0)"
    by (simp add: kernel_A_plugs)
  have b: "faulty (instantiate plug_A 0) = Some (PlugFault ''cleanup'')"
    by (simp add: faulty_def)
  show ?thesis
    using a b
      remove_plug_cleanup_raises
        [of kernel_A "''A''" "instantiate plug_A 0" faulty "PlugFault ''cleanup''"]
    by simp
qed

text \<open>
  The claim as the spec states it fails: plug A is loaded and its cleanup raises; the
  exception comes out of \<open>remove_plug\<close>, and A is still the plug of its name and still
  subscribed to its command.
\<close>

theorem remove_plug_cleanup_raises_counterexample:
  "fst (remove_plug faulty ''A'' kernel_A) = Some (PlugFault ''cleanup'') \<and>
   map_of (plugs (snd (remove_plug faulty ''A'' kernel_A))) ''A'' = Some (instantiate plug_A 0) \<and>
   hooks_command (snd (remove_plug faulty ''A'' kernel_A)) ''ping'' = Some [instantiate plug_A 0]"
  by (simp add: remove_plug_def Let_def faulty_def kernel_A_plugs kernel_A_ping)

subsection \<open>Loading a name that is already loaded\<close>

lemma add_callback_plugs: "plugs (snd (add_callback ev p k)) = plugs k"
  by (simp add: add_callback_def split: event.splits)

lemma add_callbacks_plugs: "plugs (snd (add_callbacks evs p k)) = plugs k"
proof (induction evs arbitrary: k)
  case Nil
  then show ?case by simp
next
  case (Cons ev evs)
  show ?case
  proof (cases "add_callback ev p k")
    case (Pair r k')
    with add_callback_plugs [of ev p k] have "plugs k' = plugs k" by simp
    with Pair Cons show ?thesis by (cases r) simp_all
  qed
qed

lemma fold_add_command_plugs: "plugs (fold (\<lambda>c. add_command c p) cs k) = plugs k"
  by (induction cs arbitrary: k) (simp_all add: add_command_def)

lemma fold_add_raw_plugs: "plugs (fold (\<lambda>c. add_raw c p) cs k) = plugs k"
  by (induction cs arbitrary: k) (simp_all add: add_raw_def)

lemma hook_events_plugs: "plugs (snd (hook_events p k)) = plugs k"
proof (cases "add_callbacks (hooks p) p k")
  case (Pair r k')
  with add_callbacks_plugs [of "hooks p" p k] have "plugs k' = plugs k" by simp
  with Pair show ?thesis
    by (cases r) (simp_all add: hook_events_def fold_add_command_plugs fold_add_raw_plugs)
qed

lemma add_callbacks_ok:
  "Raw \<notin> set evs \<Longrightarrow> Command \<notin> set evs \<Longrightarrow> fst (add_callbacks evs p k) = None"
proof (induction evs arbitrary: k)
  case Nil
  then show ?case by simp
next
  case (Cons ev evs)
  then show ?case by (cases ev) (simp_all add: add_callback_def)
qed

lemma hook_events_ok:
  "Raw \<notin> set (hooks p) \<Longrightarrow> Command \<notin> set (hooks p) \<Longrightarrow> fst (hook_events p k) = None"
  using add_callbacks_ok [of "hooks p" p k]
  by (cases "add_callbacks (hooks p) p k") (simp add: hook_events_def)

text \<open>
  C4, as the code has it. \<open>load_plug\<close> does not look the name up before it loads. For a
  name that \<open>self.plugs\<close> already maps to an instance and whose module resolves, the call
  stores a new instance under the name, in the place of the one that was there; the
  dictionary gets no second entry. The call returns normally when the class lists only
  simple or unknown events among its \<open>hooks\<close>. No remove has to come first.
\<close>

theorem load_plug_replaces:
  "map_of (plugs k) plugname = Some old \<Longrightarrow> ld plugname = Inr cls \<Longrightarrow>
   map_of (plugs (snd (load_plug ld plugname k))) plugname = Some (instantiate cls (next_id k)) \<and>
   map fst (plugs (snd (load_plug ld plugname k))) = map fst (plugs k) \<and>
   (Raw \<notin> set (hooks cls) \<and> Command \<notin> set (hooks cls) \<longrightarrow> fst (load_plug ld plugname k) = None)"
proof (intro conjI impI)
  assume old: "map_of (plugs k) plugname = Some old" and cls: "ld plugname = Inr cls"
  let ?p = "instantiate cls (next_id k)"
  let ?k1 = "k\<lparr>plugs := AList.update plugname ?p (plugs k), next_id := Suc (next_id k)\<rparr>"
  have eq: "load_plug ld plugname k = hook_events ?p ?k1"
    using cls by (simp add: load_plug_def Let_def)
  have pl: "plugs (snd (load_plug ld plugname k)) = AList.update plugname ?p (plugs k)"
    by (simp add: eq hook_events_plugs)
  show "map_of (plugs (snd (load_plug ld plugname k))) plugname = Some ?p"
    by (simp add: pl AList.update_conv')
  from old have "plugname \<in> fst ` set (plugs k)"
    by (metis map_of_eq_None_iff option.distinct(1))
  then show "map fst (plugs (snd (load_plug ld plugname k))) = map fst (plugs k)"
    by (simp add: pl AList.update_keys)
  {
    assume "Raw \<notin> set (hooks cls) \<and> Command \<notin> set (hooks cls)"
    then show "fst (load_plug ld plugname k) = None"
      by (simp add: eq hook_events_ok instantiate_def)
  }
qed

theorem load_plug_replaces_witness:
  "map_of (plugs kernel_A) ''A'' = Some (instantiate plug_A 0) \<and> two_plugs ''A'' = Inr plug_A \<and>
   map_of (plugs (snd (load_plug two_plugs ''A'' kernel_A))) ''A''
     = Some (instantiate plug_A (next_id kernel_A)) \<and>
   map fst (plugs (snd (load_plug two_plugs ''A'' kernel_A))) = map fst (plugs kernel_A) \<and>
   fst (load_plug two_plugs ''A'' kernel_A) = None"
proof -
  have a: "map_of (plugs kernel_A) ''A'' = Some (instantiate plug_A 0)"
    by (simp add: kernel_A_plugs)
  have b: "two_plugs ''A'' = Inr plug_A"
    by (simp add: two_plugs_def)
  have c: "Raw \<notin> set (hooks plug_A) \<and> Command \<notin> set (hooks plug_A)"
    by (simp add: plug_A_def)
  show ?thesis
    using a b c load_plug_replaces [of kernel_A "''A''" "instantiate plug_A 0" two_plugs plug_A]
    by simp
qed

text \<open>
  The claim as the spec states it fails: A is loaded as instance 0; loading A again
  returns normally and instance 1 has taken the place of instance 0.
\<close>

theorem load_plug_replaces_counterexample:
  "map_of (plugs kernel_A) ''A'' = Some (instantiate plug_A 0) \<and>
   fst (load_plug two_plugs ''A'' kernel_A) = None \<and>
   map_of (plugs (snd (load_plug two_plugs ''A'' kernel_A))) ''A'' = Some (instantiate plug_A 1)"
  by (simp add: model_defs)

subsection \<open>The three registration methods\<close>

lemma set_add_idem: "set_add x (set_add x s) = set_add x s"
  by (simp add: set_add_def)

lemma set_add_member: "x \<in> set (set_add x s)"
  by (simp add: set_add_def)

lemma add_command_idem: "add_command c p (add_command c p k) = add_command c p k"
  by (simp add: add_command_def entry_def set_add_idem)

lemma add_raw_idem: "add_raw c p (add_raw c p k) = add_raw c p k"
  by (simp add: add_raw_def entry_def set_add_idem)

lemma add_callback_idem: "add_callback ev p (snd (add_callback ev p k)) = add_callback ev p k"
  by (cases ev) (simp_all add: add_callback_def set_add_idem)

lemma set_set_add: "set (set_add x s) = insert x (set s)"
  by (auto simp: set_add_def)

lemma set_add_distinct: "distinct s \<Longrightarrow> distinct (set_add x s)"
  by (simp add: set_add_def)

lemma add_command_frame:
  "set (entry (hooks_command (add_command c p k)) c) = insert p (set (entry (hooks_command k) c)) \<and>
   (c' \<noteq> c \<longrightarrow> hooks_command (add_command c p k) c' = hooks_command k c') \<and>
   (distinct (entry (hooks_command k) c) \<longrightarrow> distinct (entry (hooks_command (add_command c p k)) c)) \<and>
   hooks_raw (add_command c p k) = hooks_raw k \<and>
   hooks_simple (add_command c p k) = hooks_simple k \<and>
   plugs (add_command c p k) = plugs k"
  by (simp add: add_command_def entry_def set_set_add set_add_distinct)

lemma add_raw_frame:
  "set (entry (hooks_raw (add_raw r p k)) r) = insert p (set (entry (hooks_raw k) r)) \<and>
   (r' \<noteq> r \<longrightarrow> hooks_raw (add_raw r p k) r' = hooks_raw k r') \<and>
   (distinct (entry (hooks_raw k) r) \<longrightarrow> distinct (entry (hooks_raw (add_raw r p k)) r)) \<and>
   hooks_command (add_raw r p k) = hooks_command k \<and>
   hooks_simple (add_raw r p k) = hooks_simple k \<and>
   plugs (add_raw r p k) = plugs k"
  by (simp add: add_raw_def entry_def set_set_add set_add_distinct)

lemma add_callback_frame:
  "set (hooks_simple (snd (add_callback (Simple e) p k)) e) = insert p (set (hooks_simple k e)) \<and>
   (e' \<noteq> e \<longrightarrow> hooks_simple (snd (add_callback (Simple e) p k)) e' = hooks_simple k e') \<and>
   (distinct (hooks_simple k e) \<longrightarrow> distinct (hooks_simple (snd (add_callback (Simple e) p k)) e)) \<and>
   hooks_command (snd (add_callback ev p k)) = hooks_command k \<and>
   hooks_raw (snd (add_callback ev p k)) = hooks_raw k \<and>
   plugs (snd (add_callback ev p k)) = plugs k"
  by (cases ev) (simp_all add: add_callback_def set_set_add set_add_distinct)

text \<open>
  C8, as the code has it. Each of \<open>add_command\<close>, \<open>add_raw\<close> and \<open>add_callback\<close> is an
  idempotent insertion into a set: a second call with the same arguments changes nothing
  and returns what the first one returned. The members of the set after the call are
  the plug and the members before it, without a duplicate; the entries of all other
  keys, the other tables and \<open>self.plugs\<close> are as they were. Only \<open>add_callback\<close>
  returns whether the key is recognised: True for a simple event, whose set then holds
  the plug, and False for an unknown event, with the state unchanged. \<open>add_command\<close>
  and \<open>add_raw\<close> return nothing and take every key: after the call the entry of the
  key holds the plug, whether the key had an entry or not.
\<close>

theorem registration:
  "add_command c p (add_command c p k) = add_command c p k \<and>
   add_raw r p (add_raw r p k) = add_raw r p k \<and>
   add_callback ev p (snd (add_callback ev p k)) = add_callback ev p k \<and>
   fst (add_callback (Simple e) p k) = Inr True \<and>
   p \<in> set (hooks_simple (snd (add_callback (Simple e) p k)) e) \<and>
   add_callback (Unknown u) p k = (Inr False, k) \<and>
   p \<in> set (entry (hooks_command (add_command c p k)) c) \<and>
   p \<in> set (entry (hooks_raw (add_raw r p k)) r) \<and>
   set (entry (hooks_command (add_command c p k)) c) = insert p (set (entry (hooks_command k) c)) \<and>
   set (entry (hooks_raw (add_raw r p k)) r) = insert p (set (entry (hooks_raw k) r)) \<and>
   set (hooks_simple (snd (add_callback (Simple e) p k)) e) = insert p (set (hooks_simple k e)) \<and>
   (c' \<noteq> c \<longrightarrow> hooks_command (add_command c p k) c' = hooks_command k c') \<and>
   (r' \<noteq> r \<longrightarrow> hooks_raw (add_raw r p k) r' = hooks_raw k r') \<and>
   (e' \<noteq> e \<longrightarrow> hooks_simple (snd (add_callback (Simple e) p k)) e' = hooks_simple k e') \<and>
   (distinct (entry (hooks_command k) c) \<longrightarrow> distinct (entry (hooks_command (add_command c p k)) c)) \<and>
   (distinct (entry (hooks_raw k) r) \<longrightarrow> distinct (entry (hooks_raw (add_raw r p k)) r)) \<and>
   (distinct (hooks_simple k e) \<longrightarrow> distinct (hooks_simple (snd (add_callback (Simple e) p k)) e)) \<and>
   hooks_raw (add_command c p k) = hooks_raw k \<and>
   hooks_simple (add_command c p k) = hooks_simple k \<and>
   plugs (add_command c p k) = plugs k \<and>
   hooks_command (add_raw r p k) = hooks_command k \<and>
   hooks_simple (add_raw r p k) = hooks_simple k \<and>
   plugs (add_raw r p k) = plugs k \<and>
   hooks_command (snd (add_callback ev p k)) = hooks_command k \<and>
   hooks_raw (snd (add_callback ev p k)) = hooks_raw k \<and>
   plugs (snd (add_callback ev p k)) = plugs k"
proof -
  have idem: "add_command c p (add_command c p k) = add_command c p k"
    "add_raw r p (add_raw r p k) = add_raw r p k"
    "add_callback ev p (snd (add_callback ev p k)) = add_callback ev p k"
    by (rule add_command_idem add_raw_idem add_callback_idem)+
  have ret: "fst (add_callback (Simple e) p k) = Inr True"
    "add_callback (Unknown u) p k = (Inr False, k)"
    by (simp_all add: add_callback_def)
  have mem: "p \<in> set (hooks_simple (snd (add_callback (Simple e) p k)) e)"
    "p \<in> set (entry (hooks_command (add_command c p k)) c)"
    "p \<in> set (entry (hooks_raw (add_raw r p k)) r)"
    by (simp_all add: add_callback_def add_command_def add_raw_def entry_def set_add_member)
  show ?thesis
    using idem ret mem add_command_frame [of c p k c'] add_raw_frame [of r p k r']
      add_callback_frame [of e p k e' ev]
    by blast
qed

lemma kernel_A_chanmsg: "hooks_simple kernel_A Chanmsg = [instantiate plug_A 0]"
  by (simp add: model_defs)

lemma kernel_A_other_entries:
  "hooks_command kernel_A ''plugs'' = None" "hooks_raw kernel_A ''352'' = None"
  "hooks_simple kernel_A Private = []"
  "hooks_raw kernel_A ''330'' = Some [instantiate plug_A 0]"
  by (simp_all add: model_defs)

theorem registration_witness:
  "''plugs'' \<noteq> ''ping'' \<and> ''352'' \<noteq> ''330'' \<and> Private \<noteq> Chanmsg \<and>
   distinct (entry (hooks_command kernel_A) ''ping'') \<and>
   distinct (entry (hooks_raw kernel_A) ''330'') \<and>
   distinct (hooks_simple kernel_A Chanmsg) \<and>
   set (entry (hooks_command (add_command ''ping'' (instantiate plug_B 1) kernel_A)) ''ping'')
     = {instantiate plug_A 0, instantiate plug_B 1} \<and>
   hooks_command (add_command ''ping'' (instantiate plug_B 1) kernel_A) ''plugs'' = None \<and>
   distinct (entry (hooks_command (add_command ''ping'' (instantiate plug_B 1) kernel_A)) ''ping'') \<and>
   set (entry (hooks_raw (add_raw ''330'' (instantiate plug_B 1) kernel_A)) ''330'')
     = {instantiate plug_A 0, instantiate plug_B 1} \<and>
   hooks_raw (add_raw ''330'' (instantiate plug_B 1) kernel_A) ''352'' = None \<and>
   distinct (entry (hooks_raw (add_raw ''330'' (instantiate plug_B 1) kernel_A)) ''330'') \<and>
   set (hooks_simple (snd (add_callback (Simple Chanmsg) (instantiate plug_B 1) kernel_A)) Chanmsg)
     = {instantiate plug_A 0, instantiate plug_B 1} \<and>
   hooks_simple (snd (add_callback (Simple Chanmsg) (instantiate plug_B 1) kernel_A)) Private = [] \<and>
   distinct (hooks_simple (snd (add_callback (Simple Chanmsg) (instantiate plug_B 1) kernel_A)) Chanmsg)"
proof -
  let ?a = "instantiate plug_A 0" and ?b = "instantiate plug_B 1"
  have h: "''plugs'' \<noteq> ''ping''" "''352'' \<noteq> ''330''" "Private \<noteq> Chanmsg"
    "distinct (entry (hooks_command kernel_A) ''ping'')"
    "distinct (entry (hooks_raw kernel_A) ''330'')"
    "distinct (hooks_simple kernel_A Chanmsg)"
    by (simp_all add: entry_def kernel_A_ping kernel_A_other_entries kernel_A_chanmsg)
  have v: "insert ?b (set (entry (hooks_command kernel_A) ''ping'')) = {?a, ?b}"
    "insert ?b (set (entry (hooks_raw kernel_A) ''330'')) = {?a, ?b}"
    "insert ?b (set (hooks_simple kernel_A Chanmsg)) = {?a, ?b}"
    by (auto simp: entry_def kernel_A_ping kernel_A_other_entries kernel_A_chanmsg)
  show ?thesis
    using h v kernel_A_other_entries
      registration [where c = "''ping''" and p = ?b and k = kernel_A and c' = "''plugs''"
        and r = "''330''" and r' = "''352''"
        and e = Chanmsg and e' = Private and ev = "Simple Chanmsg" and u = "''x''"]
    by simp
qed

text \<open>
  The claim as the spec states it fails: a command and a raw code that no table knows
  are not rejected, they get an entry with the plug in it.
\<close>

theorem registration_counterexample:
  "hooks_command empty_kernel ''zzz'' = None \<and>
   hooks_command (add_command ''zzz'' (instantiate plug_A 0) empty_kernel) ''zzz''
     = Some [instantiate plug_A 0] \<and>
   hooks_raw empty_kernel ''999'' = None \<and>
   hooks_raw (add_raw ''999'' (instantiate plug_A 0) empty_kernel) ''999''
     = Some [instantiate plug_A 0]"
  by (simp add: add_command_def add_raw_def entry_def set_add_def empty_kernel_def)

subsection \<open>One plug on a command\<close>

lemma hooks_command_remove:
  "map_of (plugs k) n = Some a \<Longrightarrow> cl a = None \<Longrightarrow>
   hooks_command (snd (remove_plug cl n k)) c = map_option (set_discard a) (hooks_command k c)"
  by (simp add: remove_plug_def Let_def discard_all_def)

text \<open>
  C9. When exactly one plug \<open>a\<close> is registered for a command, dispatching an argument
  list that starts with the command is one call of the command handler of \<open>a\<close> with the
  whole list: the dispatch returns what that call returns, and \<open>a\<close> alone has been
  called. After \<open>remove_plug\<close> has removed \<open>a\<close>, the same dispatch calls no handler,
  raises nothing and leaves the state alone; and so does the dispatch of a command that
  has no entry at all.
\<close>

theorem ping_scenario:
  "hooks_command k c = Some [a] \<Longrightarrow>
   event_command h source target (c # args) k
     = (case handle_command h a source target (c # args) k of (r, k') \<Rightarrow> (r, [a], k')) \<and>
   (map_of (plugs k) n = Some a \<and> cl a = None \<longrightarrow>
      event_command h source target (c # args) (snd (remove_plug cl n k))
        = (None, [], snd (remove_plug cl n k))) \<and>
   (hooks_command k' c' = None \<longrightarrow> event_command h source target (c' # args) k' = (None, [], k'))"
proof (intro conjI impI)
  assume reg: "hooks_command k c = Some [a]"
  show "event_command h source target (c # args) k
     = (case handle_command h a source target (c # args) k of (r, k') \<Rightarrow> (r, [a], k'))"
    using reg by (simp add: event_command_def split: prod.splits option.splits)
  {
    assume "map_of (plugs k) n = Some a \<and> cl a = None"
    then have "hooks_command (snd (remove_plug cl n k)) c = Some []"
      using reg by (simp add: hooks_command_remove set_discard_def)
    then show "event_command h source target (c # args) (snd (remove_plug cl n k))
        = (None, [], snd (remove_plug cl n k))"
      by (simp add: event_command_def)
  }
  {
    assume "hooks_command k' c' = None"
    then show "event_command h source target (c' # args) k' = (None, [], k')"
      by (simp add: event_command_def)
  }
qed

theorem ping_scenario_witness:
  "hooks_command kernel_A ''ping'' = Some [instantiate plug_A 0] \<and>
   map_of (plugs kernel_A) ''A'' = Some (instantiate plug_A 0) \<and>
   quiet (instantiate plug_A 0) = None \<and>
   hooks_command empty_kernel ''ping'' = None \<and>
   event_command idle ''alice'' ''#room'' [''ping''] kernel_A = (None, [instantiate plug_A 0], kernel_A) \<and>
   event_command idle ''alice'' ''#room'' [''ping''] (snd (remove_plug quiet ''A'' kernel_A))
     = (None, [], snd (remove_plug quiet ''A'' kernel_A)) \<and>
   event_command idle ''alice'' ''#room'' [''ping''] empty_kernel = (None, [], empty_kernel)"
proof -
  have a: "hooks_command kernel_A ''ping'' = Some [instantiate plug_A 0]"
    by (simp add: kernel_A_ping)
  have b: "map_of (plugs kernel_A) ''A'' = Some (instantiate plug_A 0)"
    by (simp add: kernel_A_plugs)
  have c: "quiet (instantiate plug_A 0) = None"
    by (simp add: quiet_def)
  have d: "hooks_command empty_kernel ''ping'' = None"
    by (simp add: empty_kernel_def)
  have e: "handle_command idle (instantiate plug_A 0) ''alice'' ''#room'' [''ping''] kernel_A = (None, kernel_A)"
    by (simp add: idle_def)
  show ?thesis
    using a b c d e
      ping_scenario [of kernel_A "''ping''" "instantiate plug_A 0" idle "''alice''" "''#room''" "[]"
                        "''A''" quiet empty_kernel "''ping''"]
    by simp
qed

subsection \<open>A handler that raises\<close>

lemma call_each_None:
  "call_each f ps k = (None, tr, k1) \<Longrightarrow> tr = ps"
proof (induction ps arbitrary: k tr)
  case Nil
  then show ?case by simp
next
  case (Cons p ps)
  then show ?case by (auto split: prod.splits option.splits)
qed

lemma call_each_raise:
  "call_each f ps k = (None, tr, k1) \<Longrightarrow> f p k1 = (Some e, k2) \<Longrightarrow>
   call_each f (ps @ p # qs) k = (Some e, ps @ [p], k2)"
proof (induction ps arbitrary: k tr)
  case Nil
  then show ?case by simp
next
  case (Cons q ps)
  then show ?case by (auto split: prod.splits option.splits)
qed

lemma iter_live_raise:
  "iter_live live f s0 ps k = (None, tr, k1) \<Longrightarrow> f p k1 = (Some e, k2) \<Longrightarrow>
   iter_live live f s0 (ps @ p # qs) k = (Some e, ps @ [p], k2)"
proof (induction ps arbitrary: k tr)
  case Nil
  then show ?case by (auto split: if_splits)
next
  case (Cons q ps)
  then show ?case by (auto split: prod.splits option.splits if_splits)
qed

text \<open>
  C3, as the code has it. No dispatcher catches what a handler raises. When the handlers
  of the plugs \<open>ps\<close> that the loop reaches first return and the handler of the next
  plug \<open>p\<close> raises, the exception comes out of the dispatch call, and the plugs called
  are \<open>ps\<close> and \<open>p\<close>: no handler of the plugs \<open>qs\<close> after it is called. This holds for
  the command, the raw and the channel message dispatch.
\<close>

theorem handler_fault_propagates:
  "(hooks_command k c = Some (ps @ p # qs) \<and>
    call_each (\<lambda>p. handle_command h p source target (c # args)) ps k = (None, tr, k1) \<and>
    handle_command h p source target (c # args) k1 = (Some e, k2)
    \<longrightarrow> event_command h source target (c # args) k = (Some e, ps @ [p], k2)) \<and>
   (hooks_raw k code = Some (ps @ p # qs) \<and>
    call_each (\<lambda>p. handle_raw h p code pre params) ps k = (None, tr, k1) \<and>
    handle_raw h p code pre params k1 = (Some e, k2)
    \<longrightarrow> event_raw h code pre params k = (Some e, ps @ [p], k2)) \<and>
   (hooks_simple k Chanmsg = ps @ p # qs \<and>
    iter_live (\<lambda>k. hooks_simple k Chanmsg) (\<lambda>p. handle_chanmsg h p source chan msg act)
      (ps @ p # qs) ps k = (None, tr, k1) \<and>
    handle_chanmsg h p source chan msg act k1 = (Some e, k2)
    \<longrightarrow> event_chanmsg h source chan msg act k = (Some e, ps @ [p], k2))"
  by (auto simp: event_command_def event_raw_def event_chanmsg_def event_simple_def
        dest: call_each_raise iter_live_raise)

lemma kernel_AB_ping:
  "hooks_command kernel_AB ''ping'' = Some [instantiate plug_A 0, instantiate plug_B 1]"
  by (simp add: model_defs)

lemma kernel_AB_chanmsg:
  "hooks_simple kernel_AB Chanmsg = [instantiate plug_A 0, instantiate plug_B 1]"
  by (simp add: model_defs)

lemma kernel_A_raw: "hooks_raw kernel_A ''330'' = Some [instantiate plug_A 0]"
  by (simp add: model_defs)

theorem handler_fault_propagates_witness:
  "hooks_command kernel_AB ''ping'' = Some ([] @ instantiate plug_A 0 # [instantiate plug_B 1]) \<and>
   hooks_raw kernel_A ''330'' = Some ([] @ instantiate plug_A 0 # []) \<and>
   hooks_simple kernel_AB Chanmsg = [] @ instantiate plug_A 0 # [instantiate plug_B 1] \<and>
   event_command crash ''alice'' ''#room'' [''ping''] kernel_AB
     = (Some (PlugFault ''boom''), [instantiate plug_A 0], kernel_AB) \<and>
   event_raw crash ''330'' ''server'' [''shirk''] kernel_A
     = (Some (PlugFault ''boom''), [instantiate plug_A 0], kernel_A) \<and>
   event_chanmsg crash ''alice'' ''#room'' ''hi'' False kernel_AB
     = (Some (PlugFault ''boom''), [instantiate plug_A 0], kernel_AB)"
proof -
  let ?a = "instantiate plug_A 0" and ?b = "instantiate plug_B 1"
  let ?e = "PlugFault ''boom''"
  have c1: "hooks_command kernel_AB ''ping'' = Some ([] @ ?a # [?b])"
    by (simp add: kernel_AB_ping)
  have c2: "call_each (\<lambda>p. handle_command crash p ''alice'' ''#room'' (''ping'' # [])) [] kernel_AB
              = (None, [], kernel_AB)"
    by simp
  have c3: "handle_command crash ?a ''alice'' ''#room'' (''ping'' # []) kernel_AB = (Some ?e, kernel_AB)"
    by (simp add: crash_def)
  have r1: "hooks_raw kernel_A ''330'' = Some ([] @ ?a # [])"
    by (simp add: kernel_A_raw)
  have r2: "call_each (\<lambda>p. handle_raw crash p ''330'' ''server'' [''shirk'']) [] kernel_A
              = (None, [], kernel_A)"
    by simp
  have r3: "handle_raw crash ?a ''330'' ''server'' [''shirk''] kernel_A = (Some ?e, kernel_A)"
    by (simp add: crash_def)
  have m1: "hooks_simple kernel_AB Chanmsg = [] @ ?a # [?b]"
    by (simp add: kernel_AB_chanmsg)
  have m2: "iter_live (\<lambda>k. hooks_simple k Chanmsg) (\<lambda>p. handle_chanmsg crash p ''alice'' ''#room'' ''hi'' False)
              ([] @ ?a # [?b]) [] kernel_AB = (None, [], kernel_AB)"
    by (simp add: kernel_AB_chanmsg)
  have m3: "handle_chanmsg crash ?a ''alice'' ''#room'' ''hi'' False kernel_AB = (Some ?e, kernel_AB)"
    by (simp add: crash_def)
  have t1: "event_command crash ''alice'' ''#room'' [''ping''] kernel_AB = (Some ?e, [] @ [?a], kernel_AB)"
    and t3: "event_chanmsg crash ''alice'' ''#room'' ''hi'' False kernel_AB = (Some ?e, [] @ [?a], kernel_AB)"
    using c1 c2 c3 m1 m2 m3
      handler_fault_propagates [where k = kernel_AB and c = "''ping''" and ps = "[]" and p = ?a
        and qs = "[?b]" and h = crash and source = "''alice''" and target = "''#room''" and args = "[]"
        and tr = "[]" and ?k1.0 = kernel_AB and e = ?e and ?k2.0 = kernel_AB and code = "''330''"
        and pre = "''server''" and params = "[''shirk'']" and chan = "''#room''" and msg = "''hi''"
        and act = False]
    by blast+
  have t2: "event_raw crash ''330'' ''server'' [''shirk''] kernel_A = (Some ?e, [] @ [?a], kernel_A)"
    using r1 r2 r3
      handler_fault_propagates [where k = kernel_A and c = "''ping''" and ps = "[]" and p = ?a
        and qs = "[]" and h = crash and source = "''alice''" and target = "''#room''" and args = "[]"
        and tr = "[]" and ?k1.0 = kernel_A and e = ?e and ?k2.0 = kernel_A and code = "''330''"
        and pre = "''server''" and params = "[''shirk'']" and chan = "''#room''" and msg = "''hi''"
        and act = False]
    by blast
  show ?thesis
    using c1 r1 m1 t1 t2 t3 by simp
qed

text \<open>
  The claim as the spec states it fails: A and B are registered for one command and the
  handler of A raises; the exception comes out of \<open>event_command\<close> and B is not called.
\<close>

theorem handler_fault_propagates_counterexample:
  "hooks_command kernel_AB ''ping'' = Some [instantiate plug_A 0, instantiate plug_B 1] \<and>
   event_command crash ''alice'' ''#room'' [''ping''] kernel_AB
     = (Some (PlugFault ''boom''), [instantiate plug_A 0], kernel_AB)"
  by (simp add: kernel_AB_ping event_command_def crash_def)

subsection \<open>Plugs that change the tables while an event is dispatched\<close>

lemma call_each_returns:
  "(\<And>p k. fst (f p k) = None) \<Longrightarrow>
   fst (call_each f ps k) = None \<and> fst (snd (call_each f ps k)) = ps"
proof (induction ps arbitrary: k)
  case Nil
  then show ?case by simp
next
  case (Cons p ps)
  obtain r k' where f: "f p k = (r, k')" by (cases "f p k")
  with Cons.prems [of p k] have r: "r = None" by simp
  obtain r' tr k'' where c: "call_each f ps k' = (r', tr, k'')" by (cases "call_each f ps k'") auto
  with Cons.IH [of k'] Cons.prems have "r' = None" "tr = ps" by simp_all
  with f r c show ?case by simp
qed

text \<open>
  The command dispatch walks a copy: whatever the handlers do to the tables, as long as
  none of them raises, every plug registered at the start is called once, in order.
\<close>

lemma event_command_snapshot:
  assumes "hooks_command k c = Some s"
    and "\<And>p k. fst (handle_command h p source target (c # args) k) = None"
  shows "fst (event_command h source target (c # args) k) = None"
    and "fst (snd (event_command h source target (c # args) k)) = s"
  using assms(1) call_each_returns [of "\<lambda>p. handle_command h p source target (c # args)" s k, OF assms(2)]
  by (simp_all add: event_command_def)

text \<open>
  C1 at an input where the code departs from it. A and B are subscribed to the channel
  message event and the handler of A removes A. \<open>event_chanmsg\<close> walks the set itself,
  not a copy. When the iterator yields A first, A is called, the next step finds the set
  smaller and raises RuntimeError, and B is never called. When it yields B first, B and
  A are called and the step that would end the loop raises RuntimeError.
\<close>

theorem chanmsg_removal_raises:
  "hooks_simple kernel_AB Chanmsg = [instantiate plug_A 0, instantiate plug_B 1] \<and>
   fst (event_chanmsg unloader ''alice'' ''#room'' ''hi'' False kernel_AB) = Some RuntimeError \<and>
   fst (snd (event_chanmsg unloader ''alice'' ''#room'' ''hi'' False kernel_AB))
     = [instantiate plug_A 0] \<and>
   hooks_simple kernel_BA Chanmsg = [instantiate plug_B 0, instantiate plug_A 1] \<and>
   fst (event_chanmsg unloader ''alice'' ''#room'' ''hi'' False kernel_BA) = Some RuntimeError \<and>
   fst (snd (event_chanmsg unloader ''alice'' ''#room'' ''hi'' False kernel_BA))
     = [instantiate plug_B 0, instantiate plug_A 1]"
  by (simp add: event_chanmsg_def event_simple_def unloader_def idle_def stale_def kernel_BA_def
        model_defs)

subsection \<open>Cleanup on the way down\<close>

text \<open>
  C6 at an input where the code departs from it. Plug A is loaded, \<open>shutdown\<close> is called
  and the connection closes. \<open>shutdown\<close> calls the cleanup of A and leaves A in
  \<open>self.plugs\<close>; \<open>connectionLost\<close> walks \<open>self.plugs\<close> and calls the cleanup of the same
  instance again.
\<close>

theorem cleanup_twice_on_shutdown:
  "cleaned (run two_plugs quiet [Load ''A'', Shutdown ''bye'', ConnectionLost] empty_kernel)
     = [instantiate plug_A 0, instantiate plug_A 0]"
  by (simp add: shutdown_def connectionLost_def model_defs)

subsection \<open>The argument list of a command\<close>

lemma split_acc_nonempty:
  "w \<noteq> [] \<or> (\<exists>c \<in> set s. \<not> is_space c) \<Longrightarrow> split_acc s w \<noteq> []"
  by (induction s arbitrary: w) auto

lemma strip_last: "strip s \<noteq> [] \<Longrightarrow> \<not> is_space (last (strip s))"
proof -
  assume ne: "strip s \<noteq> []"
  let ?d = "dropWhile is_space (rev (dropWhile is_space s))"
  from ne have d: "?d \<noteq> []" by (simp add: strip_def)
  then have "\<not> is_space (hd ?d)" by (rule hd_dropWhile)
  moreover have "last (strip s) = hd ?d" using d by (simp add: strip_def last_rev)
  ultimately show ?thesis by simp
qed

text \<open>
  With a command prefix of at most one character, the default being one, the list that
  \<open>privmsg\<close> hands to \<open>event_command\<close> is never empty: the stripped message has more
  than one character and ends in one that is no white space.
\<close>

lemma command_argv_nonempty:
  assumes "length cmd_prefix \<le> 1" and "command_argv cmd_prefix (strip msg) = Some argv"
  shows "argv \<noteq> []"
proof -
  let ?m = "strip msg"
  from assms(2) have len: "length ?m > 1" and argv: "argv = split (drop (length cmd_prefix) ?m)"
    by (auto simp: command_argv_def split: if_splits)
  from len have ne: "?m \<noteq> []" by auto
  have "drop (length cmd_prefix) ?m \<noteq> []" using len assms(1) by simp
  then have "last (drop (length cmd_prefix) ?m) \<in> set (drop (length cmd_prefix) ?m)"
    by (rule last_in_set)
  moreover have "last (drop (length cmd_prefix) ?m) = last ?m"
    using len assms(1) by (simp add: last_drop)
  ultimately have "\<exists>c \<in> set (drop (length cmd_prefix) ?m). \<not> is_space c"
    using strip_last [OF ne] by metis
  then show ?thesis
    unfolding argv split_def by (intro split_acc_nonempty) simp
qed

text \<open>
  C10 at an input where the code departs from it. The test of line 195 compares the
  length of the message with 1, not with the length of the prefix. With the prefix
  \<open>!!\<close> the message \<open>!!\<close> passes the test, the argument list is empty, and
  \<open>event_command\<close> raises IndexError at \<open>argv[0]\<close>.
\<close>

theorem bare_prefix_IndexError:
  "command_argv ''!!'' (strip ''!!'') = Some [] \<and>
   fst (privmsg idle ''shirk'' ''!!'' ''alice!a@host'' ''#room'' ''!!'' empty_kernel) = Some IndexError"
  by (simp add: privmsg_def command_argv_def startswith_def strip_def is_space_def split_def
        event_chanmsg_def event_simple_def event_command_def empty_kernel_def Let_def)

subsection \<open>The hook tables and the active plugs\<close>

lemma set_set_discard: "set (set_discard x s) = set s - {x}"
  by (auto simp: set_discard_def)

lemma entry_upd: "entry (t(c \<mapsto> s)) c' = (if c' = c then s else entry t c')"
  by (simp add: entry_def)

lemma entry_discard_all: "set (entry (discard_all p t) c) = set (entry t c) - {p}"
  by (cases "t c") (simp_all add: entry_def discard_all_def set_set_discard)

lemma grows_by_refl: "grows_by p k k"
  by (auto simp: grows_by_def)

lemma grows_by_trans: "grows_by p k k1 \<Longrightarrow> grows_by p k1 k2 \<Longrightarrow> grows_by p k k2"
  unfolding grows_by_def by (intro conjI allI) (simp, simp, blast+)

lemma grows_by_add_command: "grows_by p k (add_command c p k)"
  by (auto simp: grows_by_def add_command_def entry_upd set_set_add)

lemma grows_by_add_raw: "grows_by p k (add_raw c p k)"
  by (auto simp: grows_by_def add_raw_def entry_upd set_set_add)

lemma grows_by_add_callback: "grows_by p k (snd (add_callback ev p k))"
  by (cases ev) (auto simp: grows_by_def add_callback_def set_set_add)

lemma grows_by_fold_command: "grows_by p k (fold (\<lambda>c. add_command c p) cs k)"
proof (induction cs arbitrary: k)
  case Nil
  show ?case by (simp add: grows_by_refl)
next
  case (Cons c cs)
  show ?case
    using grows_by_trans [OF grows_by_add_command Cons.IH] by simp
qed

lemma grows_by_fold_raw: "grows_by p k (fold (\<lambda>c. add_raw c p) cs k)"
proof (induction cs arbitrary: k)
  case Nil
  show ?case by (simp add: grows_by_refl)
next
  case (Cons c cs)
  show ?case
    using grows_by_trans [OF grows_by_add_raw Cons.IH] by simp
qed

lemma grows_by_add_callbacks: "grows_by p k (snd (add_callbacks evs p k))"
proof (induction evs arbitrary: k)
  case Nil
  show ?case by (simp add: grows_by_refl)
next
  case (Cons ev evs)
  obtain r k' where a: "add_callback ev p k = (r, k')" by (cases "add_callback ev p k")
  with grows_by_add_callback [of p k ev] have g: "grows_by p k k'" by simp
  show ?case
  proof (cases r)
    case (Inl e)
    with a g show ?thesis by simp
  next
    case (Inr b)
    with a grows_by_trans [OF g Cons.IH [of k']] show ?thesis by simp
  qed
qed

lemma grows_by_hook_events: "grows_by p k (snd (hook_events p k))"
proof -
  obtain r k' where a: "add_callbacks (hooks p) p k = (r, k')"
    by (cases "add_callbacks (hooks p) p k")
  with grows_by_add_callbacks [of p k "hooks p"] have g: "grows_by p k k'" by simp
  show ?thesis
  proof (cases r)
    case (Some e)
    with a g show ?thesis by (simp add: hook_events_def)
  next
    case None
    have "grows_by p k (fold (\<lambda>c. add_raw c p) (rawhooks p) (fold (\<lambda>c. add_command c p) (commands p) k'))"
      by (rule grows_by_trans [OF g grows_by_trans [OF grows_by_fold_command grows_by_fold_raw]])
    with a None show ?thesis by (simp add: hook_events_def)
  qed
qed

lemma fold_command_member:
  "c \<in> set cs \<Longrightarrow> p \<in> set (entry (hooks_command (fold (\<lambda>c. add_command c p) cs k)) c)"
proof (induction cs arbitrary: k)
  case Nil
  then show ?case by simp
next
  case (Cons a cs)
  show ?case
  proof (cases "c \<in> set cs")
    case True
    with Cons.IH show ?thesis by simp
  next
    case False
    with Cons.prems have ca: "c = a" by simp
    have "p \<in> set (entry (hooks_command (add_command a p k)) a)"
      by (simp add: add_command_def entry_upd set_set_add)
    moreover have "grows_by p (add_command a p k) (fold (\<lambda>c. add_command c p) cs (add_command a p k))"
      by (rule grows_by_fold_command)
    ultimately show ?thesis using ca by (auto simp: grows_by_def)
  qed
qed

lemma fold_raw_member:
  "c \<in> set cs \<Longrightarrow> p \<in> set (entry (hooks_raw (fold (\<lambda>c. add_raw c p) cs k)) c)"
proof (induction cs arbitrary: k)
  case Nil
  then show ?case by simp
next
  case (Cons a cs)
  show ?case
  proof (cases "c \<in> set cs")
    case True
    with Cons.IH show ?thesis by simp
  next
    case False
    with Cons.prems have ca: "c = a" by simp
    have "p \<in> set (entry (hooks_raw (add_raw a p k)) a)"
      by (simp add: add_raw_def entry_upd set_set_add)
    moreover have "grows_by p (add_raw a p k) (fold (\<lambda>c. add_raw c p) cs (add_raw a p k))"
      by (rule grows_by_fold_raw)
    ultimately show ?thesis using ca by (auto simp: grows_by_def)
  qed
qed

lemma add_callbacks_member:
  "Raw \<notin> set evs \<Longrightarrow> Command \<notin> set evs \<Longrightarrow> Simple ev \<in> set evs \<Longrightarrow>
   p \<in> set (hooks_simple (snd (add_callbacks evs p k)) ev)"
proof (induction evs arbitrary: k)
  case Nil
  then show ?case by simp
next
  case (Cons a evs)
  obtain r k' where a: "add_callback a p k = (r, k')" by (cases "add_callback a p k")
  from Cons.prems have "a \<noteq> Raw" "a \<noteq> Command" by auto
  with a obtain b where r: "r = Inr b" by (cases a) (auto simp: add_callback_def)
  show ?case
  proof (cases "Simple ev \<in> set evs")
    case True
    with Cons a r show ?thesis by simp
  next
    case False
    with Cons.prems have "a = Simple ev" by simp
    with a have "p \<in> set (hooks_simple k' ev)"
      by (auto simp: add_callback_def set_set_add)
    moreover have "grows_by p k' (snd (add_callbacks evs p k'))"
      by (rule grows_by_add_callbacks)
    ultimately show ?thesis using a r by (auto simp: grows_by_def)
  qed
qed

lemma hook_events_registers:
  assumes "Raw \<notin> set (hooks p)" and "Command \<notin> set (hooks p)"
  shows "registered (snd (hook_events p k)) p"
proof -
  obtain r k1 where a: "add_callbacks (hooks p) p k = (r, k1)"
    by (cases "add_callbacks (hooks p) p k")
  with add_callbacks_ok [OF assms, of p k] have r: "r = None" by simp
  let ?k2 = "fold (\<lambda>c. add_command c p) (commands p) k1"
  let ?k3 = "fold (\<lambda>c. add_raw c p) (rawhooks p) ?k2"
  have k3: "snd (hook_events p k) = ?k3"
    using a r by (simp add: hook_events_def)
  have g12: "grows_by p k1 ?k2" by (rule grows_by_fold_command)
  have g23: "grows_by p ?k2 ?k3" by (rule grows_by_fold_raw)
  have s: "\<forall>ev. Simple ev \<in> set (hooks p) \<longrightarrow> p \<in> set (hooks_simple k1 ev)"
    using add_callbacks_member [OF assms, of _ p k] a by auto
  have c: "\<forall>c \<in> set (commands p). p \<in> set (entry (hooks_command ?k2) c)"
    by (simp add: fold_command_member)
  have w: "\<forall>c \<in> set (rawhooks p). p \<in> set (entry (hooks_raw ?k3) c)"
    by (simp add: fold_raw_member)
  have "\<forall>ev. Simple ev \<in> set (hooks p) \<longrightarrow> p \<in> set (hooks_simple ?k3 ev)"
    using s g12 g23 unfolding grows_by_def by blast
  moreover have "\<forall>c \<in> set (commands p). p \<in> set (entry (hooks_command ?k3) c)"
    using c g23 unfolding grows_by_def by blast
  ultimately show ?thesis
    using w unfolding k3 registered_def by blast
qed


lemma same_tables_no_dangling: "same_tables k k' \<Longrightarrow> no_dangling k \<Longrightarrow> no_dangling k'"
  by (simp add: same_tables_def no_dangling_def)

lemma same_tables_active_ok: "same_tables k k' \<Longrightarrow> active_ok k \<Longrightarrow> active_ok k'"
  by (simp add: same_tables_def active_ok_def registered_def)

lemma same_tables_cleanup_each: "same_tables k (snd (cleanup_each cl ps k))"
proof (induction ps arbitrary: k)
  case Nil
  show ?case by (simp add: same_tables_def)
next
  case (Cons p ps)
  have "same_tables (k\<lparr>cleaned := cleaned k @ [p]\<rparr>) (snd (cleanup_each cl ps (k\<lparr>cleaned := cleaned k @ [p]\<rparr>)))"
    by (rule Cons.IH)
  then show ?case
    by (cases "cl p") (simp_all add: same_tables_def Let_def)
qed

lemma same_tables_shutdown: "same_tables k (snd (shutdown cl msg k))"
  using same_tables_cleanup_each [of k cl "map snd (plugs k)"]
  by (cases "cleanup_each cl (map snd (plugs k)) k")
     (auto simp: shutdown_def same_tables_def split: option.splits)

lemma same_tables_connectionLost: "same_tables k (snd (connectionLost cl k))"
  using same_tables_cleanup_each [of k cl "map snd (plugs k)"]
  by (cases "cleanup_each cl (map snd (plugs k)) k")
     (auto simp: connectionLost_def same_tables_def split: option.splits)

lemma update_fresh: "map_of ps n = None \<Longrightarrow> AList.update n v ps = ps @ [(n, v)]"
  by (induction ps) (auto split: if_splits)

lemma load_plug_no_dangling:
  assumes inv: "no_dangling k" and fresh: "map_of (plugs k) n = None"
  shows "no_dangling (snd (load_plug ld n k))"
proof (cases "ld n")
  case (Inl e)
  with inv show ?thesis by (simp add: load_plug_def)
next
  case (Inr cls)
  let ?p = "instantiate cls (next_id k)"
  let ?k1 = "k\<lparr>plugs := plugs k @ [(n, ?p)], next_id := Suc (next_id k)\<rparr>"
  let ?k' = "snd (hook_events ?p ?k1)"
  have eq: "snd (load_plug ld n k) = ?k'"
    using Inr fresh by (simp add: load_plug_def Let_def update_fresh)
  have g: "grows_by ?p ?k1 ?k'" by (rule grows_by_hook_events)
  then have pl: "plugs ?k' = plugs k @ [(n, ?p)]" by (simp add: grows_by_def)
  have d: "distinct (map fst (plugs ?k'))"
    using inv fresh by (auto simp: pl no_dangling_def map_of_eq_None_iff)
  have vals: "snd ` set (plugs ?k') = insert ?p (snd ` set (plugs k))"
    by (simp add: pl)
  have c: "\<forall>q c. q \<in> set (entry (hooks_command ?k') c) \<longrightarrow> q \<in> snd ` set (plugs ?k')"
  proof (intro allI impI)
    fix q c assume "q \<in> set (entry (hooks_command ?k') c)"
    with g have "q = ?p \<or> q \<in> set (entry (hooks_command ?k1) c)"
      unfolding grows_by_def by blast
    then have "q = ?p \<or> q \<in> set (entry (hooks_command k) c)" by simp
    with inv show "q \<in> snd ` set (plugs ?k')"
      unfolding vals no_dangling_def by blast
  qed
  have r: "\<forall>q c. q \<in> set (entry (hooks_raw ?k') c) \<longrightarrow> q \<in> snd ` set (plugs ?k')"
  proof (intro allI impI)
    fix q c assume "q \<in> set (entry (hooks_raw ?k') c)"
    with g have "q = ?p \<or> q \<in> set (entry (hooks_raw ?k1) c)"
      unfolding grows_by_def by blast
    then have "q = ?p \<or> q \<in> set (entry (hooks_raw k) c)" by simp
    with inv show "q \<in> snd ` set (plugs ?k')"
      unfolding vals no_dangling_def by blast
  qed
  have s: "\<forall>q ev. q \<in> set (hooks_simple ?k' ev) \<longrightarrow> q \<in> snd ` set (plugs ?k')"
  proof (intro allI impI)
    fix q ev assume "q \<in> set (hooks_simple ?k' ev)"
    with g have "q = ?p \<or> q \<in> set (hooks_simple ?k1 ev)"
      unfolding grows_by_def by blast
    then have "q = ?p \<or> q \<in> set (hooks_simple k ev)" by simp
    with inv show "q \<in> snd ` set (plugs ?k')"
      unfolding vals no_dangling_def by blast
  qed
  show ?thesis
    unfolding eq no_dangling_def using d c r s by blast
qed

lemma grows_by_registered: "grows_by p k k' \<Longrightarrow> registered k q \<Longrightarrow> registered k' q"
  unfolding grows_by_def registered_def by blast

lemma load_plug_active_ok:
  assumes inv: "active_ok k" and fresh: "map_of (plugs k) n = None"
    and wf: "\<And>cls. ld n = Inr cls \<Longrightarrow> Raw \<notin> set (hooks cls) \<and> Command \<notin> set (hooks cls)"
  shows "active_ok (snd (load_plug ld n k))"
proof (cases "ld n")
  case (Inl e)
  with inv show ?thesis by (simp add: load_plug_def)
next
  case (Inr cls)
  let ?p = "instantiate cls (next_id k)"
  let ?k1 = "k\<lparr>plugs := plugs k @ [(n, ?p)], next_id := Suc (next_id k)\<rparr>"
  let ?k' = "snd (hook_events ?p ?k1)"
  have eq: "snd (load_plug ld n k) = ?k'"
    using Inr fresh by (simp add: load_plug_def Let_def update_fresh)
  have g: "grows_by ?p ?k1 ?k'" by (rule grows_by_hook_events)
  then have pl: "plugs ?k' = plugs k @ [(n, ?p)]" and nx: "next_id ?k' = Suc (next_id k)"
    by (simp_all add: grows_by_def)
  have hp: "Raw \<notin> set (hooks ?p)" "Command \<notin> set (hooks ?p)"
    using wf [OF Inr] by (simp_all add: instantiate_def)
  have new: "registered ?k' ?p" by (rule hook_events_registers [OF hp])
  have pidp: "pid ?p = next_id k" by (simp add: instantiate_def)
  have old: "\<forall>x \<in> set (plugs k). registered ?k' (snd x) \<and> pid (snd x) < Suc (next_id k)"
  proof
    fix x assume x: "x \<in> set (plugs k)"
    with inv have "registered k (snd x)" and lt: "pid (snd x) < next_id k"
      by (auto simp: active_ok_def)
    then have "registered ?k1 (snd x)" by (simp add: registered_def)
    with g have "registered ?k' (snd x)" by (rule grows_by_registered)
    with lt show "registered ?k' (snd x) \<and> pid (snd x) < Suc (next_id k)" by simp
  qed
  have "\<forall>x \<in> set (plugs k). pid (snd x) \<noteq> next_id k"
    using inv by (auto simp: active_ok_def)
  then have d: "distinct (map (\<lambda>x. pid (snd x)) (plugs ?k'))"
    using inv by (auto simp: pl pidp active_ok_def)
  show ?thesis
    unfolding eq active_ok_def using old new d pidp by (auto simp: pl nx)
qed

lemma remove_plug_cases:
  obtains (absent) "map_of (plugs k) n = None" "snd (remove_plug cl n k) = k"
  | (raised) p where "map_of (plugs k) n = Some p" "snd (remove_plug cl n k) = k\<lparr>cleaned := cleaned k @ [p]\<rparr>"
  | (removed) p where "map_of (plugs k) n = Some p"
      "snd (remove_plug cl n k) =
         k\<lparr>cleaned := cleaned k @ [p],
           hooks_command := discard_all p (hooks_command k),
           hooks_raw := discard_all p (hooks_raw k),
           hooks_simple := (\<lambda>ev. set_discard p (hooks_simple k ev)),
           plugs := AList.delete n (plugs k)\<rparr>"
proof (cases "map_of (plugs k) n")
  case None
  then show ?thesis using absent by (simp add: remove_plug_def)
next
  case (Some p)
  show ?thesis
  proof (cases "cl p")
    case None
    with Some show ?thesis using removed [of p] by (simp add: remove_plug_def Let_def)
  next
    case (Some e)
    with \<open>map_of (plugs k) n = Some p\<close> show ?thesis
      using raised [of p] by (simp add: remove_plug_def Let_def)
  qed
qed

lemma set_delete: "set (AList.delete n ps) = {x \<in> set ps. fst x \<noteq> n}"
  by (auto simp: AList.delete_eq)

lemma remove_plug_no_dangling:
  assumes inv: "no_dangling k"
  shows "no_dangling (snd (remove_plug cl n k))"
proof (cases rule: remove_plug_cases [where k = k and n = n and cl = cl])
  case absent
  with inv show ?thesis by simp
next
  case (raised p)
  with inv show ?thesis by (simp add: no_dangling_def)
next
  case (removed p)
  let ?k' = "snd (remove_plug cl n k)"
  from inv have dk: "distinct (map fst (plugs k))" by (simp add: no_dangling_def)
  have keep: "q \<in> snd ` set (plugs ?k')" if q: "q \<in> snd ` set (plugs k)" and ne: "q \<noteq> p" for q
  proof -
    from q obtain m where m: "(m, q) \<in> set (plugs k)" by force
    with dk have "map_of (plugs k) m = Some q" by simp
    with removed(1) ne have "m \<noteq> n" by auto
    with m have "(m, q) \<in> set (AList.delete n (plugs k))" by (simp add: set_delete)
    then show ?thesis unfolding removed(2) by force
  qed
  have d: "distinct (map fst (plugs ?k'))"
    using dk by (simp add: removed(2) AList.distinct_delete)
  have c: "\<forall>q c. q \<in> set (entry (hooks_command ?k') c) \<longrightarrow> q \<in> snd ` set (plugs ?k')"
  proof (intro allI impI)
    fix q c assume "q \<in> set (entry (hooks_command ?k') c)"
    then have "q \<in> set (entry (hooks_command k) c)" "q \<noteq> p"
      by (simp_all add: removed(2) entry_discard_all)
    with inv keep show "q \<in> snd ` set (plugs ?k')" unfolding no_dangling_def by blast
  qed
  have r: "\<forall>q c. q \<in> set (entry (hooks_raw ?k') c) \<longrightarrow> q \<in> snd ` set (plugs ?k')"
  proof (intro allI impI)
    fix q c assume "q \<in> set (entry (hooks_raw ?k') c)"
    then have "q \<in> set (entry (hooks_raw k) c)" "q \<noteq> p"
      by (simp_all add: removed(2) entry_discard_all)
    with inv keep show "q \<in> snd ` set (plugs ?k')" unfolding no_dangling_def by blast
  qed
  have s: "\<forall>q ev. q \<in> set (hooks_simple ?k' ev) \<longrightarrow> q \<in> snd ` set (plugs ?k')"
  proof (intro allI impI)
    fix q ev assume "q \<in> set (hooks_simple ?k' ev)"
    then have "q \<in> set (hooks_simple k ev)" "q \<noteq> p"
      by (simp_all add: removed(2) set_set_discard)
    with inv keep show "q \<in> snd ` set (plugs ?k')" unfolding no_dangling_def by blast
  qed
  show ?thesis unfolding no_dangling_def using d c r s by blast
qed

lemma remove_plug_active_ok:
  assumes inv: "active_ok k"
  shows "active_ok (snd (remove_plug cl n k))"
proof (cases rule: remove_plug_cases [where k = k and n = n and cl = cl])
  case absent
  with inv show ?thesis by simp
next
  case (raised p)
  with inv show ?thesis by (simp add: active_ok_def registered_def)
next
  case (removed p)
  let ?k' = "snd (remove_plug cl n k)"
  from inv have dp: "distinct (map (\<lambda>x. pid (snd x)) (plugs k))" by (simp add: active_ok_def)
  from removed(1) have np: "(n, p) \<in> set (plugs k)" by (rule map_of_SomeD)
  have pl: "plugs ?k' = AList.delete n (plugs k)" and nx: "next_id ?k' = next_id k"
    by (simp_all add: removed(2))
  have each: "registered ?k' (snd x) \<and> pid (snd x) < next_id ?k'" if x: "x \<in> set (plugs ?k')" for x
  proof -
    from x have xk: "x \<in> set (plugs k)" and xn: "fst x \<noteq> n" by (simp_all add: pl set_delete)
    from dp have "inj_on (\<lambda>x. pid (snd x)) (set (plugs k))" by (simp add: distinct_map)
    with xk np xn have "pid (snd x) \<noteq> pid p" by (auto simp: inj_on_def)
    then have ne: "snd x \<noteq> p" by auto
    from inv xk have reg: "registered k (snd x)" and lt: "pid (snd x) < next_id k"
      by (auto simp: active_ok_def)
    from reg ne have "registered ?k' (snd x)"
      by (simp add: registered_def removed(2) entry_discard_all set_set_discard)
    with lt nx show ?thesis by simp
  qed
  have "distinct (map (\<lambda>x. pid (snd x)) (plugs ?k'))"
    using dp by (simp add: pl AList.delete_eq distinct_map_filter)
  with each show ?thesis unfolding active_ok_def by blast
qed

lemma empty_no_dangling: "no_dangling empty_kernel"
  by (simp add: no_dangling_def empty_kernel_def entry_def)

lemma empty_active_ok: "active_ok empty_kernel"
  by (simp add: active_ok_def empty_kernel_def)

lemma run_no_dangling:
  "no_dangling k \<Longrightarrow> fresh_loads ld cl ops k \<Longrightarrow> no_dangling (run ld cl ops k)"
proof (induction ops arbitrary: k)
  case Nil
  then show ?case by simp
next
  case (Cons x xs)
  have "no_dangling (apply_op ld cl x k)"
  proof (cases x)
    case (Load n)
    with Cons.prems show ?thesis by (simp add: load_plug_no_dangling)
  next
    case (Remove n)
    with Cons.prems show ?thesis by (simp add: remove_plug_no_dangling)
  next
    case (Shutdown msg)
    with Cons.prems same_tables_no_dangling [OF same_tables_shutdown] show ?thesis by simp
  next
    case ConnectionLost
    with Cons.prems same_tables_no_dangling [OF same_tables_connectionLost] show ?thesis by simp
  qed
  with Cons show ?case by simp
qed

lemma run_active_ok:
  assumes wf: "\<And>n cls. ld n = Inr cls \<Longrightarrow> Raw \<notin> set (hooks cls) \<and> Command \<notin> set (hooks cls)"
  shows "active_ok k \<Longrightarrow> fresh_loads ld cl ops k \<Longrightarrow> active_ok (run ld cl ops k)"
proof (induction ops arbitrary: k)
  case Nil
  then show ?case by simp
next
  case (Cons x xs)
  have "active_ok (apply_op ld cl x k)"
  proof (cases x)
    case (Load n)
    with Cons.prems wf show ?thesis by (simp add: load_plug_active_ok)
  next
    case (Remove n)
    with Cons.prems show ?thesis by (simp add: remove_plug_active_ok)
  next
    case (Shutdown msg)
    with Cons.prems same_tables_active_ok [OF same_tables_shutdown] show ?thesis by simp
  next
    case ConnectionLost
    with Cons.prems same_tables_active_ok [OF same_tables_connectionLost] show ?thesis by simp
  qed
  with Cons show ?case by simp
qed

text \<open>
  C2, as the code has it. Take any finite sequence of operations on the kernel, started
  with no plug loaded, in which \<open>load_plug\<close> is never called for a name that is
  active at that moment. Afterwards every plug instance that appears in an entry of the
  command table, of the raw table or of a simple event is the instance that some name
  maps to in \<open>self.plugs\<close>: no removed instance is reachable from the hooks. And,
  when no plug class lists \<open>Event.raw\<close> or \<open>Event.command\<close> among its \<open>hooks\<close>, every
  instance in \<open>self.plugs\<close> is in the entry of each command, each raw code and each
  simple event that it declares.
\<close>

theorem hooks_match_plugs:
  assumes "fresh_loads ld cl ops empty_kernel" and "k = run ld cl ops empty_kernel"
  shows
    "(p \<in> set (entry (hooks_command k) c) \<or> p \<in> set (entry (hooks_raw k) r) \<or>
      p \<in> set (hooks_simple k ev) \<longrightarrow> (\<exists>n. map_of (plugs k) n = Some p)) \<and>
     ((\<forall>n cls. ld n = Inr cls \<longrightarrow> Raw \<notin> set (hooks cls) \<and> Command \<notin> set (hooks cls)) \<and>
      map_of (plugs k) n = Some p \<longrightarrow>
        (c \<in> set (commands p) \<longrightarrow> p \<in> set (entry (hooks_command k) c)) \<and>
        (r \<in> set (rawhooks p) \<longrightarrow> p \<in> set (entry (hooks_raw k) r)) \<and>
        (Simple ev \<in> set (hooks p) \<longrightarrow> p \<in> set (hooks_simple k ev)))"
proof (intro conjI impI)
  have nd: "no_dangling k"
    unfolding assms(2) by (rule run_no_dangling [OF empty_no_dangling assms(1)])
  assume "p \<in> set (entry (hooks_command k) c) \<or> p \<in> set (entry (hooks_raw k) r) \<or>
      p \<in> set (hooks_simple k ev)"
  with nd have "p \<in> snd ` set (plugs k)" unfolding no_dangling_def by blast
  then obtain m where "(m, p) \<in> set (plugs k)" by force
  moreover from nd have "distinct (map fst (plugs k))" by (simp add: no_dangling_def)
  ultimately have "map_of (plugs k) m = Some p" by simp
  then show "\<exists>n. map_of (plugs k) n = Some p" ..
next
  assume a: "(\<forall>n cls. ld n = Inr cls \<longrightarrow> Raw \<notin> set (hooks cls) \<and> Command \<notin> set (hooks cls)) \<and>
      map_of (plugs k) n = Some p"
  then have "active_ok k"
    unfolding assms(2) using run_active_ok [OF _ empty_active_ok assms(1)] by blast
  moreover from a have "(n, p) \<in> set (plugs k)" by (simp add: map_of_SomeD)
  ultimately have reg: "registered k p" unfolding active_ok_def by force
  {
    assume "c \<in> set (commands p)"
    with reg show "p \<in> set (entry (hooks_command k) c)" by (simp add: registered_def)
  }
  {
    assume "r \<in> set (rawhooks p)"
    with reg show "p \<in> set (entry (hooks_raw k) r)" by (simp add: registered_def)
  }
  {
    assume "Simple ev \<in> set (hooks p)"
    with reg show "p \<in> set (hooks_simple k ev)" by (simp add: registered_def)
  }
qed


lemma two_plugs_simple_hooks:
  "\<forall>n cls. two_plugs n = Inr cls \<longrightarrow> Raw \<notin> set (hooks cls) \<and> Command \<notin> set (hooks cls)"
  by (auto simp: two_plugs_def plug_A_def plug_B_def split: if_splits)

text \<open>
  The claim as the spec states it fails: A is loaded twice without a removal between.
  The first instance is still in the set of its command, and \<open>self.plugs\<close> holds the
  second instance only.
\<close>

theorem hooks_match_plugs_counterexample:
  "instantiate plug_A 0
     \<in> set (entry (hooks_command (run two_plugs quiet [Load ''A'', Load ''A''] empty_kernel)) ''ping'') \<and>
   map_of (plugs (run two_plugs quiet [Load ''A'', Load ''A''] empty_kernel)) ''A''
     = Some (instantiate plug_A 1) \<and>
   instantiate plug_A 0
     \<notin> set (map snd (plugs (run two_plugs quiet [Load ''A'', Load ''A''] empty_kernel)))"
  by (simp add: model_defs)

theorem hooks_match_plugs_witness:
  "fresh_loads two_plugs quiet [Load ''A'', Load ''B'', Remove ''B''] empty_kernel \<and>
   instantiate plug_A 0
     \<in> set (entry (hooks_command (run two_plugs quiet [Load ''A'', Load ''B'', Remove ''B''] empty_kernel)) ''ping'') \<and>
   map_of (plugs (run two_plugs quiet [Load ''A'', Load ''B'', Remove ''B''] empty_kernel)) ''A''
     = Some (instantiate plug_A 0) \<and>
   ''ping'' \<in> set (commands (instantiate plug_A 0)) \<and>
   ''330'' \<in> set (rawhooks (instantiate plug_A 0)) \<and>
   Simple Chanmsg \<in> set (hooks (instantiate plug_A 0)) \<and>
   instantiate plug_A 0
     \<in> set (entry (hooks_raw (run two_plugs quiet [Load ''A'', Load ''B'', Remove ''B''] empty_kernel)) ''330'') \<and>
   instantiate plug_A 0
     \<in> set (hooks_simple (run two_plugs quiet [Load ''A'', Load ''B'', Remove ''B''] empty_kernel) Chanmsg)"
proof -
  let ?ops = "[Load ''A'', Load ''B'', Remove ''B'']"
  let ?K = "run two_plugs quiet ?ops empty_kernel"
  let ?a = "instantiate plug_A 0"
  have f: "fresh_loads two_plugs quiet ?ops empty_kernel"
    by (simp add: model_defs)
  have h: "?a \<in> set (entry (hooks_command ?K) ''ping'')"
    by (simp add: model_defs)
  have m: "map_of (plugs ?K) ''A'' = Some ?a"
    by (simp add: model_defs)
  have d: "''ping'' \<in> set (commands ?a)" "''330'' \<in> set (rawhooks ?a)"
    "Simple Chanmsg \<in> set (hooks ?a)"
    by (simp_all add: instantiate_def plug_A_def)
  show ?thesis
    using f h m d two_plugs_simple_hooks
      hooks_match_plugs [where ld = two_plugs and cl = quiet and ops = ?ops and k = ?K
        and p = ?a and c = "''ping''" and r = "''330''" and ev = Chanmsg and n = "''A''"]
    by blast
qed

end
